theory Spec2Isabelle
  imports Main
begin

section \<open>The scaffolding script \<open>estructura.py\<close>\<close>

text \<open>
  The script is one nested loop over a fixed table: for every folder it calls
  \<^verbatim>\<open>os.makedirs(os.path.join(base_dir, folder), exist_ok=True)\<close> and then, for every
  file name, \<^verbatim>\<open>open(os.path.join(full_folder_path, file_name), 'w')\<close> followed by
  \<^verbatim>\<open>f.write("")\<close>. Everything it does is an effect on the file system, so the
  embedding has three layers:
  \<^item> the file system and the system calls \<open>stat\<close>, \<open>mkdir\<close> and \<open>open\<close> (POSIX
    behaviour, one process, no symbolic links, no permission bits, no quota);
  \<^item> the functions of Python's standard library the script calls, transcribed from
    CPython's \<^verbatim>\<open>posixpath.py\<close> and \<^verbatim>\<open>os.py\<close>: \<open>os.path.join\<close>, \<open>os.path.split\<close>,
    \<open>os.path.exists\<close>, \<open>os.path.isdir\<close>, \<open>os.makedirs\<close>;
  \<^item> the script itself: its two constants and its two loops.
  An exception is a value: every operation returns the file system it leaves behind and,
  when it raised, the exception.
\<close>

subsection \<open>Path strings\<close>

text \<open>\<^verbatim>\<open>p.split('/')\<close>: the components of a path string, empty ones included.\<close>

fun split_slash :: "string \<Rightarrow> string list" where
  "split_slash [] = [[]]"
| "split_slash (c # cs) =
     (if c = CHR ''/'' then [] # split_slash cs
      else (c # hd (split_slash cs)) # tl (split_slash cs))"

text \<open>\<^verbatim>\<open>posixpath.join(a, b)\<close> with one second argument.\<close>

definition path_join :: "string \<Rightarrow> string \<Rightarrow> string" where
  "path_join a b =
     (if b \<noteq> [] \<and> hd b = CHR ''/'' then b
      else if a = [] \<or> last a = CHR ''/'' then a @ b
      else a @ CHR ''/'' # b)"

text \<open>\<^verbatim>\<open>head.rstrip('/')\<close>.\<close>

definition rstrip_slash :: "string \<Rightarrow> string" where
  "rstrip_slash p = rev (dropWhile (\<lambda>c. c = CHR ''/'') (rev p))"

text \<open>
  \<^verbatim>\<open>posixpath.split(p)\<close>: the text after the last slash is the tail, the text up to and
  including it the head, whose trailing slashes are stripped unless it consists of
  slashes only.
\<close>

definition path_split :: "string \<Rightarrow> string \<times> string" where
  "path_split p =
     (let tail = rev (takeWhile (\<lambda>c. c \<noteq> CHR ''/'') (rev p));
          head = rev (dropWhile (\<lambda>c. c \<noteq> CHR ''/'') (rev p))
      in (if head \<noteq> [] \<and> \<not> list_all (\<lambda>c. c = CHR ''/'') head
          then rstrip_slash head else head, tail))"

definition curdir :: string where
  "curdir = ''.''"

subsection \<open>The file system\<close>

text \<open>
  A node is a directory or a regular file with its content. The file system maps the
  absolute, resolved path of every existing node (the list of its component names from
  the root, \<open>[]\<close> being the root directory) to the node, and records the working
  directory of the process.
\<close>

datatype node = Dir | File string

type_synonym path = "string list"

record fs =
  nodes :: "path \<rightharpoonup> node"
  cwd :: path

text \<open>The subclasses of \<open>OSError\<close> that the modelled system calls raise.\<close>

datatype error =
  FileExistsError | FileNotFoundError | NotADirectoryError | IsADirectoryError

text \<open>
  Path resolution. One component is looked up in the directory reached so far: an empty
  component and \<open>.\<close> stay there, \<open>..\<close> goes to the parent (the root is its own parent), a
  name goes to the entry of that name. \<open>walk\<close> resolves a list of components; looking a
  component up needs the place reached so far to be an existing directory. The node the
  last component names is not inspected.
\<close>

definition step :: "path \<Rightarrow> string \<Rightarrow> path" where
  "step d c = (if c = [] \<or> c = ''.'' then d else if c = ''..'' then butlast d else d @ [c])"

fun walk :: "(path \<rightharpoonup> node) \<Rightarrow> path \<Rightarrow> string list \<Rightarrow> error + path" where
  "walk ns d [] = Inr d"
| "walk ns d (c # cs) =
     (case ns d of
        None \<Rightarrow> Inl FileNotFoundError
      | Some (File content) \<Rightarrow> Inl NotADirectoryError
      | Some Dir \<Rightarrow> walk ns (step d c) cs)"

text \<open>An absolute path string is resolved from the root, any other from the working directory.\<close>

definition start_dir :: "string \<Rightarrow> fs \<Rightarrow> path" where
  "start_dir p s = (if p \<noteq> [] \<and> hd p = CHR ''/'' then [] else cwd s)"

text \<open>\<open>stat(2)\<close>: the node a path string names. The empty string names nothing.\<close>

definition stat :: "string \<Rightarrow> fs \<Rightarrow> error + node" where
  "stat p s =
     (if p = [] then Inl FileNotFoundError
      else case walk (nodes s) (start_dir p s) (split_slash p) of
        Inl e \<Rightarrow> Inl e
      | Inr q \<Rightarrow> (case nodes s q of None \<Rightarrow> Inl FileNotFoundError | Some n \<Rightarrow> Inr n))"

text \<open>\<^verbatim>\<open>os.path.exists\<close> and \<^verbatim>\<open>os.path.isdir\<close>: \<open>stat\<close>, with every error read as \<open>False\<close>.\<close>

definition path_exists :: "string \<Rightarrow> fs \<Rightarrow> bool" where
  "path_exists p s = (case stat p s of Inl e \<Rightarrow> False | Inr n \<Rightarrow> True)"

definition isdir :: "string \<Rightarrow> fs \<Rightarrow> bool" where
  "isdir p s = (case stat p s of Inr Dir \<Rightarrow> True | _ \<Rightarrow> False)"

text \<open>
  The directory in which the last component of a path is created or opened: all
  components but the last are resolved, and the result must be an existing directory.
\<close>

definition lookup_parent :: "string list \<Rightarrow> path \<Rightarrow> fs \<Rightarrow> error + path" where
  "lookup_parent comps start s =
     (case walk (nodes s) start (butlast comps) of
        Inl e \<Rightarrow> Inl e
      | Inr d \<Rightarrow>
          (case nodes s d of
             None \<Rightarrow> Inl FileNotFoundError
           | Some (File content) \<Rightarrow> Inl NotADirectoryError
           | Some Dir \<Rightarrow> Inr d))"

text \<open>Trailing slashes of a path leave empty components at its end; \<open>mkdir\<close> ignores them.\<close>

definition strip_trailing :: "string list \<Rightarrow> string list" where
  "strip_trailing comps = rev (dropWhile (\<lambda>c. c = []) (rev comps))"

text \<open>
  \<open>mkdir(2)\<close>. It fails with \<open>EEXIST\<close> when the path names something that exists (the
  root, \<open>.\<close> and \<open>..\<close> of an existing directory included), with \<open>ENOENT\<close> or \<open>ENOTDIR\<close>
  when the directory to create it in is missing or is a file. A failed call changes
  nothing.
\<close>

definition mkdir :: "string \<Rightarrow> fs \<Rightarrow> error + fs" where
  "mkdir p s =
     (if p = [] then Inl FileNotFoundError
      else let comps = strip_trailing (split_slash p) in
        if comps = [] then Inl FileExistsError
        else case lookup_parent comps (start_dir p s) s of
          Inl e \<Rightarrow> Inl e
        | Inr d \<Rightarrow>
            (let c = last comps in
             if c = ''.'' \<or> c = ''..'' then Inl FileExistsError
             else case nodes s (d @ [c]) of
               Some n \<Rightarrow> Inl FileExistsError
             | None \<Rightarrow> Inr (s\<lparr>nodes := (nodes s)(d @ [c] \<mapsto> Dir)\<rparr>)))"

text \<open>
  \<^verbatim>\<open>open(p, 'w')\<close>, that is \<open>open(2)\<close> with \<open>O_WRONLY | O_CREAT | O_TRUNC\<close>: the file is
  created when it is missing and emptied when it exists. The call returns the opened
  file (its resolved path stands for the file object) with the new file system. A path
  that names a directory raises \<open>IsADirectoryError\<close>.
\<close>

definition open_w :: "string \<Rightarrow> fs \<Rightarrow> error + path \<times> fs" where
  "open_w p s =
     (if p = [] then Inl FileNotFoundError
      else let comps = split_slash p in
        case lookup_parent comps (start_dir p s) s of
          Inl e \<Rightarrow> Inl e
        | Inr d \<Rightarrow>
            (let c = last comps in
             if c = [] \<or> c = ''.'' \<or> c = ''..'' then Inl IsADirectoryError
             else case nodes s (d @ [c]) of
               Some Dir \<Rightarrow> Inl IsADirectoryError
             | _ \<Rightarrow> Inr (d @ [c], s\<lparr>nodes := (nodes s)(d @ [c] \<mapsto> File [])\<rparr>)))"

text \<open>\<^verbatim>\<open>f.write(data)\<close> on a file just opened for writing: the data is appended.\<close>

definition file_write :: "path \<Rightarrow> string \<Rightarrow> fs \<Rightarrow> fs" where
  "file_write f data s =
     (case nodes s f of
        Some (File content) \<Rightarrow> s\<lparr>nodes := (nodes s)(f \<mapsto> File (content @ data))\<rparr>
      | _ \<Rightarrow> s)"

subsection \<open>\<open>os.makedirs\<close>\<close>

text \<open>
  The last statement of \<^verbatim>\<open>os.makedirs\<close>:
  \<^verbatim>\<open>
    try:
        mkdir(name, mode)
    except OSError:
        if not exist_ok or not path.isdir(name):
            raise
  \<close>
\<close>

definition try_mkdir :: "string \<Rightarrow> bool \<Rightarrow> fs \<Rightarrow> fs \<times> error option" where
  "try_mkdir name exist_ok s =
     (case mkdir name s of
        Inr s' \<Rightarrow> (s', None)
      | Inl e \<Rightarrow> if \<not> exist_ok \<or> \<not> isdir name s then (s, Some e) else (s, None))"

text \<open>
  \<^verbatim>\<open>
    def makedirs(name, mode=0o777, exist_ok=False):
        head, tail = path.split(name)
        if not tail:
            head, tail = path.split(head)
        if head and tail and not path.exists(head):
            try:
                makedirs(head, exist_ok=exist_ok)
            except FileExistsError:
                pass
            if tail == curdir:
                return
        try: mkdir(name, mode) ...
  \<close>
  The recursive call is on a proper prefix of \<open>name\<close>, which is why it terminates.
\<close>

function makedirs :: "string \<Rightarrow> bool \<Rightarrow> fs \<Rightarrow> fs \<times> error option" where
  "makedirs name exist_ok s =
     (let (head, tail) = path_split name;
          (head, tail) = (if tail = [] then path_split head else (head, tail))
      in if head \<noteq> [] \<and> tail \<noteq> [] \<and> \<not> path_exists head s then
           (case makedirs head exist_ok s of
              (s1, r) \<Rightarrow>
                if r \<noteq> None \<and> r \<noteq> Some FileExistsError then (s1, r)
                else if tail = curdir then (s1, None)
                else try_mkdir name exist_ok s1)
         else try_mkdir name exist_ok s)"
  by pat_completeness auto

lemma path_split_length:
  "path_split p = (h, t) \<Longrightarrow> length h + length t \<le> length p"
proof -
  assume ps: "path_split p = (h, t)"
  let ?P = "\<lambda>c. c \<noteq> CHR ''/''"
  have t: "t = rev (takeWhile ?P (rev p))"
    using ps by (simp add: path_split_def Let_def)
  have "length h \<le> length (dropWhile ?P (rev p))"
  proof -
    have "length (rstrip_slash x) \<le> length x" for x
      using length_dropWhile_le [of "\<lambda>c. c = CHR ''/''" "rev x"]
      by (simp add: rstrip_slash_def)
    with ps show ?thesis
      by (auto simp: path_split_def Let_def split: if_splits)
        (metis length_rev)
  qed
  moreover have "length (takeWhile ?P (rev p)) + length (dropWhile ?P (rev p)) = length p"
    by (metis length_append length_rev takeWhile_dropWhile_id)
  ultimately show ?thesis using t by simp
qed

lemma path_split_shorter:
  "path_split p = (h, t) \<Longrightarrow> t \<noteq> [] \<Longrightarrow> length h < length p"
  using path_split_length [of p h t] by (cases t) auto

termination makedirs
proof (relation "measure (\<lambda>(name, exist_ok, s). length name)", goal_cases)
  case 1
  show ?case by simp
next
  case (2 name exist_ok s x head tail x2 head' tail')
  have "length head' < length name"
  proof (cases "tail = []")
    case True
    with 2 have "path_split head = (head', tail')" "path_split name = (head, tail)"
      by simp_all
    with 2 show ?thesis
      using path_split_shorter [of head head' tail'] path_split_length [of name head tail]
      by simp
  next
    case False
    with 2 have "path_split name = (head', tail')"
      by simp
    with 2 show ?thesis
      using path_split_shorter [of name head' tail'] by simp
  qed
  then show ?case by simp
qed

subsection \<open>The script\<close>

definition base_dir :: string where
  "base_dir = ''src''"

definition "structure" :: "(string \<times> string list) list" where
  "structure =
    [(''components/auth'', [''LoginPage.jsx'', ''ProtectedRoute.jsx'']),
     (''components/camas'', [''AdminDashboard.jsx'', ''CamaForm.jsx'', ''CamaViewer.jsx'',
        ''QrGenerator.jsx'', ''SearchBar.jsx'']),
     (''components/layout'', [''Navbar.jsx'']),
     (''firebase'', [''config.js'']),
     (''hooks'', [''useAuth.js'']),
     (''pages'', [''AdminPage.jsx'', ''CamaPage.jsx'', ''HomePage.jsx'']),
     (''.'', [''App.jsx'', ''main.jsx'', ''routes.jsx''])]"

text \<open>
  The body of the inner loop writes one file:
  \<^verbatim>\<open>
    with open(file_path, 'w') as f:
        f.write(data)
  \<close>
  The script calls it with \<open>data = ""\<close>. Leaving the \<open>with\<close> block closes the file,
  which changes nothing in this model.
\<close>

definition write_text :: "string \<Rightarrow> string \<Rightarrow> fs \<Rightarrow> fs \<times> error option" where
  "write_text file_path data s =
     (case open_w file_path s of
        Inl e \<Rightarrow> (s, Some e)
      | Inr (f, s1) \<Rightarrow> (file_write f data s1, None))"

text \<open>
  The inner loop, over the files of one folder:
  \<^verbatim>\<open>
    for file_name in files:
        file_path = os.path.join(full_folder_path, file_name)
        with open(file_path, 'w') as f:
            f.write("")
  \<close>
  An exception ends the loop; the file system is then the one the failed call left.
\<close>

fun create_files :: "string \<Rightarrow> string list \<Rightarrow> fs \<Rightarrow> fs \<times> error option" where
  "create_files full_folder_path [] s = (s, None)"
| "create_files full_folder_path (file_name # files) s =
     (let file_path = path_join full_folder_path file_name in
      case write_text file_path [] s of
        (s1, Some e) \<Rightarrow> (s1, Some e)
      | (s1, None) \<Rightarrow> create_files full_folder_path files s1)"

text \<open>
  The outer loop, over the items of the table in their order:
  \<^verbatim>\<open>
    for folder, files in structure.items():
        full_folder_path = os.path.join(base_dir, folder)
        os.makedirs(full_folder_path, exist_ok=True)
        for file_name in files: ...
  \<close>
\<close>

fun run :: "string \<Rightarrow> (string \<times> string list) list \<Rightarrow> fs \<Rightarrow> fs \<times> error option" where
  "run base [] s = (s, None)"
| "run base ((folder, files) # rest) s =
     (let full_folder_path = path_join base folder in
      case makedirs full_folder_path True s of
        (s1, Some e) \<Rightarrow> (s1, Some e)
      | (s1, None) \<Rightarrow>
          (case create_files full_folder_path files s1 of
             (s2, Some e) \<Rightarrow> (s2, Some e)
           | (s2, None) \<Rightarrow> run base rest s2))"

text \<open>The script as a whole.\<close>

definition main :: "fs \<Rightarrow> fs \<times> error option" where
  "main s = run base_dir structure s"

subsection \<open>The data model of the table\<close>

text \<open>
  A folder of the table is a relative path of segments separated by slashes: no segment
  is empty (so the path neither starts nor ends with a slash, and has no double slash)
  and none is \<open>..\<close>; the segment \<open>.\<close> is allowed. A file name is not empty and has no
  slash.
\<close>

definition valid_seg :: "string \<Rightarrow> bool" where
  "valid_seg c = (c \<noteq> [] \<and> c \<noteq> ''..'')"

definition valid_rel :: "string \<Rightarrow> bool" where
  "valid_rel p = list_all valid_seg (split_slash p)"

definition valid_file_name :: "string \<Rightarrow> bool" where
  "valid_file_name f = (f \<noteq> [] \<and> CHR ''/'' \<notin> set f)"

definition valid_folders :: "(string \<times> string list) list \<Rightarrow> bool" where
  "valid_folders spec = list_all (\<lambda>(folder, files). valid_rel folder) spec"

definition valid_spec :: "(string \<times> string list) list \<Rightarrow> bool" where
  "valid_spec spec =
     list_all (\<lambda>(folder, files). valid_rel folder \<and> list_all valid_file_name files) spec"

subsection \<open>Invariants and relations of file systems\<close>

text \<open>
  In a well-formed file system every node but the root lies in a directory.
\<close>

definition wf_fs :: "fs \<Rightarrow> bool" where
  "wf_fs s = (\<forall>p n. nodes s p = Some n \<longrightarrow> p \<noteq> [] \<longrightarrow> nodes s (butlast p) = Some Dir)"

text \<open>
  \<open>grows s s'\<close>: \<open>s'\<close> is \<open>s\<close> with new directories. \<open>evolves s s'\<close>: \<open>s'\<close> is \<open>s\<close> with
  new directories, new empty files, and files of \<open>s\<close> emptied.
\<close>

definition grows :: "fs \<Rightarrow> fs \<Rightarrow> bool" where
  "grows s s' =
     (cwd s' = cwd s \<and>
      (\<forall>q. nodes s' q = nodes s q \<or> (nodes s q = None \<and> nodes s' q = Some Dir)))"

definition evolves :: "fs \<Rightarrow> fs \<Rightarrow> bool" where
  "evolves s s' =
     (cwd s' = cwd s \<and>
      (\<forall>q. nodes s' q = nodes s q
         \<or> (nodes s q = None \<and> (nodes s' q = Some Dir \<or> nodes s' q = Some (File [])))
         \<or> (\<exists>c. nodes s q = Some (File c) \<and> nodes s' q = Some (File []))))"

subsection \<open>The node a path string stands for\<close>


subsection \<open>Collisions\<close>




subsection \<open>A file system to run the script on\<close>

text \<open>
  A project directory \<open>/home\<close> with nothing in it, which is also the working directory.
\<close>

definition empty_project :: fs where
  "empty_project = \<lparr>nodes = [[] \<mapsto> Dir, [''home''] \<mapsto> Dir], cwd = [''home'']\<rparr>"


text \<open>A table with one nested folder and no files.\<close>

definition nested_table :: "(string \<times> string list) list" where
  "nested_table = [(''a/b/c'', [])]"

text \<open>
  A table whose second folder is the file its first entry creates; a third entry follows.
\<close>

definition clashing_table :: "(string \<times> string list) list" where
  "clashing_table =
     [(''hooks'', [''useAuth.js'']), (''hooks/useAuth.js'', []), (''pages'', [''HomePage.jsx''])]"

section \<open>Properties\<close>

subsection \<open>Path strings\<close>

lemma split_slash_not_Nil [simp]: "split_slash p \<noteq> []"
  by (induction p) auto

lemma split_slash_append:
  "split_slash (a @ CHR ''/'' # b) = split_slash a @ split_slash b"
  by (induction a) auto

lemma split_slash_no_slash:
  "CHR ''/'' \<notin> set b \<Longrightarrow> split_slash b = [b]"
  by (induction b) auto

lemma split_slash_comp_no_slash:
  "c \<in> set (split_slash p) \<Longrightarrow> CHR ''/'' \<notin> set c"
proof (induction p arbitrary: c)
  case Nil
  then show ?case by simp
next
  case (Cons a p)
  obtain x xs where S: "split_slash p = x # xs"
    using split_slash_not_Nil [of p] by (cases "split_slash p") auto
  show ?case
  proof (cases "a = CHR ''/''")
    case True
    with Cons.prems have "c = [] \<or> c \<in> set (split_slash p)" by simp
    with Cons.IH show ?thesis by auto
  next
    case False
    with Cons.prems S have "c = a # x \<or> c \<in> set xs" by simp
    moreover have "CHR ''/'' \<notin> set x" using Cons.IH [of x] S by simp
    moreover have "c \<in> set xs \<Longrightarrow> CHR ''/'' \<notin> set c" using Cons.IH [of c] S by simp
    ultimately show ?thesis using False by auto
  qed
qed

lemma split_slash_single:
  "split_slash p = [t] \<Longrightarrow> p = t"
proof (induction p arbitrary: t)
  case Nil
  then show ?case by simp
next
  case (Cons a p)
  obtain x xs where S: "split_slash p = x # xs"
    using split_slash_not_Nil [of p] by (cases "split_slash p") auto
  from Cons.prems S have na: "a \<noteq> CHR ''/''" by (auto split: if_splits)
  with Cons.prems S have "xs = []" "t = a # x" by simp_all
  with S Cons.IH [of x] show ?case by simp
qed

lemma split_slash_snoc:
  "split_slash p = xs @ [t] \<Longrightarrow> xs \<noteq> [] \<Longrightarrow>
   \<exists>h. p = h @ CHR ''/'' # t \<and> split_slash h = xs"
proof (induction p arbitrary: xs)
  case Nil
  then show ?case by simp
next
  case (Cons a p)
  show ?case
  proof (cases "a = CHR ''/''")
    case True
    with Cons.prems have eq: "[] # split_slash p = xs @ [t]" by simp
    then obtain xs' where xs: "xs = [] # xs'" and sp: "split_slash p = xs' @ [t]"
      using Cons.prems(2) by (cases xs) auto
    show ?thesis
    proof (cases "xs' = []")
      case True
      with sp have "p = t" by (simp add: split_slash_single)
      with xs True \<open>a = CHR ''/''\<close> show ?thesis by (intro exI [of _ "[]"]) simp
    next
      case False
      from Cons.IH [OF sp False] obtain h where "p = h @ CHR ''/'' # t" "split_slash h = xs'"
        by blast
      with xs \<open>a = CHR ''/''\<close> show ?thesis by (intro exI [of _ "a # h"]) simp
    qed
  next
    case False
    with Cons.prems have eq: "(a # hd (split_slash p)) # tl (split_slash p) = xs @ [t]"
      by simp
    then obtain x xs' where xs: "xs = x # xs'" using Cons.prems(2) by (cases xs) auto
    with eq have x: "x = a # hd (split_slash p)" and tl: "tl (split_slash p) = xs' @ [t]"
      by auto
    then have sp: "split_slash p = (hd (split_slash p) # xs') @ [t]"
      by (cases "split_slash p") auto
    from Cons.IH [OF sp] obtain h where h: "p = h @ CHR ''/'' # t"
      "split_slash h = hd (split_slash p) # xs'"
      by blast
    with xs x False show ?thesis by (intro exI [of _ "a # h"]) simp
  qed
qed

lemma split_slash_last_Nil:
  "last (split_slash p) = [] \<longleftrightarrow> p = [] \<or> last p = CHR ''/''"
proof
  assume l: "last (split_slash p) = []"
  obtain xs t where sp: "split_slash p = xs @ [t]"
    using split_slash_not_Nil [of p] by (cases "split_slash p" rule: rev_cases) auto
  with l have t: "t = []" by simp
  show "p = [] \<or> last p = CHR ''/''"
  proof (cases "xs = []")
    case True
    with sp t show ?thesis using split_slash_single [of p "[]"] by simp
  next
    case False
    from split_slash_snoc [OF sp False] t show ?thesis by auto
  qed
next
  assume "p = [] \<or> last p = CHR ''/''"
  then show "last (split_slash p) = []"
  proof
    assume "p = []"
    then show ?thesis by simp
  next
    assume l: "last p = CHR ''/''"
    show ?thesis
    proof (cases p rule: rev_cases)
      case Nil
      then show ?thesis by simp
    next
      case (snoc q c)
      with l have "p = q @ CHR ''/'' # []" by simp
      then show ?thesis by (simp only: split_slash_append) simp
    qed
  qed
qed

lemma split_slash_hd_Nil:
  "hd (split_slash p) = [] \<longleftrightarrow> p = [] \<or> hd p = CHR ''/''"
  by (cases p) auto

lemma valid_rel_ends:
  assumes "valid_rel p"
  shows "p \<noteq> []" "last p \<noteq> CHR ''/''" "hd p \<noteq> CHR ''/''"
proof -
  have "last (split_slash p) \<in> set (split_slash p)" "hd (split_slash p) \<in> set (split_slash p)"
    by simp_all
  with assms have "last (split_slash p) \<noteq> []" "hd (split_slash p) \<noteq> []"
    by (auto simp: valid_rel_def valid_seg_def list_all_iff)
  then show "p \<noteq> []" "last p \<noteq> CHR ''/''" "hd p \<noteq> CHR ''/''"
    by (simp_all add: split_slash_last_Nil split_slash_hd_Nil)
qed

lemma path_split_slash:
  assumes "CHR ''/'' \<notin> set t" "h \<noteq> []" "last h \<noteq> CHR ''/''"
  shows "path_split (h @ CHR ''/'' # t) = (h, t)"
proof -
  let ?P = "\<lambda>c. c \<noteq> CHR ''/''"
  obtain h' c where h: "h = h' @ [c]" and c: "c \<noteq> CHR ''/''"
    using assms(2,3) by (cases h rule: rev_cases) auto
  have a: "\<forall>x\<in>set (rev t). ?P x" using assms(1) by auto
  have tw: "takeWhile ?P (rev t @ CHR ''/'' # rev h) = rev t"
    using a by (simp add: takeWhile_tail)
  have dw: "dropWhile ?P (rev t @ CHR ''/'' # rev h) = CHR ''/'' # rev h"
    using a by (simp add: dropWhile_append3)
  have ns: "\<not> list_all (\<lambda>c. c = CHR ''/'') (rev (CHR ''/'' # rev h))"
    using c by (simp add: h)
  have rs: "rstrip_slash (rev (CHR ''/'' # rev h)) = h"
    using c by (simp add: h rstrip_slash_def)
  have "path_split (h @ CHR ''/'' # t) =
    (let tail = rev (takeWhile ?P (rev t @ CHR ''/'' # rev h));
         head = rev (dropWhile ?P (rev t @ CHR ''/'' # rev h))
     in (if head \<noteq> [] \<and> \<not> list_all (\<lambda>c. c = CHR ''/'') head
         then rstrip_slash head else head, tail))"
    by (simp add: path_split_def)
  also have "\<dots> = (h, t)"
    unfolding tw dw Let_def using ns rs by (simp del: rev.simps)
  finally show ?thesis .
qed

lemma path_split_no_slash:
  assumes "CHR ''/'' \<notin> set t"
  shows "path_split t = ([], t)"
proof -
  let ?P = "\<lambda>c. c \<noteq> CHR ''/''"
  have a: "\<forall>x\<in>set (rev t). ?P x" using assms by auto
  have tw: "takeWhile ?P (rev t) = rev t"
    using a by (simp only: takeWhile_eq_all_conv)
  have dw: "dropWhile ?P (rev t) = []"
    using a by (simp only: dropWhile_eq_Nil_conv)
  show ?thesis
    unfolding path_split_def tw dw Let_def by simp
qed

text \<open>The shape of a valid relative path under \<open>os.path.split\<close>.\<close>

lemma path_split_valid:
  assumes "valid_rel p"
  obtains (single) "path_split p = ([], p)" "split_slash p = [p]" "valid_seg p"
  | (more) h t where "path_split p = (h, t)" "p = h @ CHR ''/'' # t" "valid_rel h" "valid_seg t"
      "split_slash p = split_slash h @ [t]" "CHR ''/'' \<notin> set t"
proof -
  obtain xs t where sp: "split_slash p = xs @ [t]"
    using split_slash_not_Nil [of p] by (cases "split_slash p" rule: rev_cases) auto
  have t: "CHR ''/'' \<notin> set t" using sp split_slash_comp_no_slash [of t p] by simp
  have vt: "valid_seg t" and vxs: "list_all valid_seg xs"
    using assms sp by (simp_all add: valid_rel_def)
  show thesis
  proof (cases "xs = []")
    case True
    with sp have "p = t" by (simp add: split_slash_single)
    with t sp True vt show thesis by (intro single) (simp_all add: path_split_no_slash)
  next
    case False
    from split_slash_snoc [OF sp False] obtain h where h: "p = h @ CHR ''/'' # t"
      "split_slash h = xs" by blast
    with vxs have vh: "valid_rel h" by (simp add: valid_rel_def)
    from valid_rel_ends [OF vh] t h have "path_split p = (h, t)"
      by (simp add: path_split_slash)
    with h vh vt sp t show thesis by (intro more [of h t]) simp_all
  qed
qed

lemma path_join_valid:
  assumes "valid_rel a" "b = [] \<or> hd b \<noteq> CHR ''/''"
  shows "path_join a b = a @ CHR ''/'' # b"
  using valid_rel_ends [OF assms(1)] assms(2) by (auto simp: path_join_def)

lemma valid_rel_join:
  assumes "valid_rel a" "valid_rel b"
  shows "valid_rel (path_join a b)" "split_slash (path_join a b) = split_slash a @ split_slash b"
  using assms valid_rel_ends [OF assms(2)]
  by (simp_all add: path_join_valid split_slash_append valid_rel_def)

subsection \<open>Relations of file systems\<close>

lemma grows_refl: "grows s s"
  by (simp add: grows_def)

lemma grows_trans: "grows s t \<Longrightarrow> grows t u \<Longrightarrow> grows s u"
  unfolding grows_def by (metis option.distinct(1))

lemma evolves_refl: "evolves s s"
  by (simp add: evolves_def)

lemma grows_evolves: "grows s t \<Longrightarrow> evolves s t"
  unfolding grows_def evolves_def by metis

lemma evolves_trans:
  assumes "evolves s t" "evolves t u"
  shows "evolves s u"
proof -
  have "nodes u q = nodes s q
         \<or> (nodes s q = None \<and> (nodes u q = Some Dir \<or> nodes u q = Some (File [])))
         \<or> (\<exists>c. nodes s q = Some (File c) \<and> nodes u q = Some (File []))" for q
  proof -
    from assms(1) have a: "nodes t q = nodes s q
         \<or> (nodes s q = None \<and> (nodes t q = Some Dir \<or> nodes t q = Some (File [])))
         \<or> (\<exists>c. nodes s q = Some (File c) \<and> nodes t q = Some (File []))"
      by (simp add: evolves_def)
    from assms(2) have b: "nodes u q = nodes t q
         \<or> (nodes t q = None \<and> (nodes u q = Some Dir \<or> nodes u q = Some (File [])))
         \<or> (\<exists>c. nodes t q = Some (File c) \<and> nodes u q = Some (File []))"
      by (simp add: evolves_def)
    from a b show ?thesis by (cases "nodes s q") auto
  qed
  moreover have "cwd u = cwd s" using assms by (simp add: evolves_def)
  ultimately show ?thesis by (simp add: evolves_def)
qed

lemma evolves_Dir: "evolves s t \<Longrightarrow> nodes s q = Some Dir \<Longrightarrow> nodes t q = Some Dir"
  unfolding evolves_def by (metis node.distinct(1) option.distinct(1) option.inject)

lemma evolves_File:
  "evolves s t \<Longrightarrow> nodes s q = Some (File c) \<Longrightarrow>
   nodes t q = Some (File c) \<or> nodes t q = Some (File [])"
  unfolding evolves_def by (metis option.distinct(1))

lemma grows_back:
  "grows s t \<Longrightarrow> nodes t q = Some (File c) \<Longrightarrow> nodes s q = Some (File c)"
  unfolding grows_def by (metis node.distinct(1) option.inject)

subsection \<open>Path resolution\<close>

lemma walk_append:
  "walk ns d (xs @ ys) = (case walk ns d xs of Inl e \<Rightarrow> Inl e | Inr q \<Rightarrow> walk ns q ys)"
  by (induction xs arbitrary: d) (auto split: option.splits node.splits)

lemma walk_snoc:
  "walk ns d (xs @ [x]) =
     (case walk ns d xs of
        Inl e \<Rightarrow> Inl e
      | Inr q \<Rightarrow>
          (case ns q of
             None \<Rightarrow> Inl FileNotFoundError
           | Some (File content) \<Rightarrow> Inl NotADirectoryError
           | Some Dir \<Rightarrow> Inr (step q x)))"
  by (auto simp: walk_append split: sum.splits option.splits node.splits)

text \<open>Resolution only looks at directories, so it survives whatever keeps them.\<close>

lemma walk_mono:
  assumes "\<And>q. ns q = Some Dir \<Longrightarrow> ns' q = Some Dir"
  shows "walk ns d xs = Inr q \<Longrightarrow> walk ns' d xs = Inr q"
proof (induction xs arbitrary: d)
  case Nil
  then show ?case by simp
next
  case (Cons x xs)
  then show ?case
    using assms [of d] by (auto split: option.splits node.splits)
qed

lemma lookup_parent_walk:
  "comps \<noteq> [] \<Longrightarrow>
   walk (nodes s) start comps =
     (case lookup_parent comps start s of Inl e \<Rightarrow> Inl e | Inr d \<Rightarrow> Inr (step d (last comps)))"
proof -
  assume "comps \<noteq> []"
  then have "comps = butlast comps @ [last comps]" by simp
  then have "walk (nodes s) start comps = walk (nodes s) start (butlast comps @ [last comps])"
    by simp
  also have "\<dots> = (case lookup_parent comps start s of
      Inl e \<Rightarrow> Inl e | Inr d \<Rightarrow> Inr (step d (last comps)))"
    unfolding walk_snoc lookup_parent_def
    by (auto split: sum.splits option.splits node.splits)
  finally show ?thesis .
qed

lemma stat_evolves_Dir:
  assumes "evolves s t" "stat p s = Inr Dir"
  shows "stat p t = Inr Dir"
proof -
  from assms(2) obtain q where p: "p \<noteq> []"
    and w: "walk (nodes s) (start_dir p s) (split_slash p) = Inr q" and n: "nodes s q = Some Dir"
    by (auto simp: stat_def split: if_splits sum.splits option.splits)
  have sd: "start_dir p t = start_dir p s" using assms(1) by (simp add: start_dir_def evolves_def)
  have "walk (nodes t) (start_dir p s) (split_slash p) = Inr q"
    using w by (rule walk_mono [rotated]) (rule evolves_Dir [OF assms(1)])
  moreover have "nodes t q = Some Dir" using n by (rule evolves_Dir [OF assms(1)])
  ultimately show ?thesis using p sd by (simp add: stat_def)
qed

lemma isdir_iff: "isdir p s \<longleftrightarrow> stat p s = Inr Dir"
  by (auto simp: isdir_def split: sum.splits node.splits)

lemma isdir_evolves: "evolves s t \<Longrightarrow> isdir p s \<Longrightarrow> isdir p t"
  by (simp add: isdir_iff stat_evolves_Dir)

lemma stat_evolves_File:
  assumes "evolves s t" "stat p s = Inr (File c)"
  shows "stat p t = Inr (File c) \<or> stat p t = Inr (File [])"
proof -
  from assms(2) obtain q where p: "p \<noteq> []"
    and w: "walk (nodes s) (start_dir p s) (split_slash p) = Inr q"
    and n: "nodes s q = Some (File c)"
    by (auto simp: stat_def split: if_splits sum.splits option.splits)
  have sd: "start_dir p t = start_dir p s" using assms(1) by (simp add: start_dir_def evolves_def)
  have "walk (nodes t) (start_dir p s) (split_slash p) = Inr q"
    using w by (rule walk_mono [rotated]) (rule evolves_Dir [OF assms(1)])
  moreover have "nodes t q = Some (File c) \<or> nodes t q = Some (File [])"
    using n by (rule evolves_File [OF assms(1)])
  ultimately show ?thesis using p sd by (auto simp: stat_def)
qed

subsection \<open>Valid relative paths in the file system\<close>

lemma strip_trailing_id: "xs \<noteq> [] \<Longrightarrow> last xs \<noteq> [] \<Longrightarrow> strip_trailing xs = xs"
  by (cases xs rule: rev_cases) (auto simp: strip_trailing_def)

lemma valid_rel_last:
  assumes "valid_rel p"
  shows "valid_seg (last (split_slash p))"
proof -
  have "last (split_slash p) \<in> set (split_slash p)" by simp
  with assms show ?thesis by (auto simp: valid_rel_def list_all_iff)
qed

lemma valid_rel_strip: "valid_rel p \<Longrightarrow> strip_trailing (split_slash p) = split_slash p"
  using valid_rel_last [of p] by (simp add: strip_trailing_id valid_seg_def)

lemma valid_rel_start: "valid_rel p \<Longrightarrow> start_dir p s = cwd s"
  using valid_rel_ends [of p] by (simp add: start_dir_def)

lemma valid_rel_no_dotdot: "valid_rel p \<Longrightarrow> ''..'' \<notin> set (split_slash p)"
  by (auto simp: valid_rel_def valid_seg_def list_all_iff)

lemma valid_rel_snoc:
  assumes "valid_rel h" "valid_seg t" "CHR ''/'' \<notin> set t"
  shows "valid_rel (h @ CHR ''/'' # t)"
    and "split_slash (h @ CHR ''/'' # t) = split_slash h @ [t]"
  using assms by (simp_all add: split_slash_append split_slash_no_slash valid_rel_def)

text \<open>Induction over a valid relative path, one segment at a time from the right.\<close>

lemma valid_rel_induct [consumes 1, case_names single more]:
  assumes "valid_rel p"
    and "\<And>p. valid_seg p \<Longrightarrow> CHR ''/'' \<notin> set p \<Longrightarrow> P p"
    and "\<And>h t. valid_rel h \<Longrightarrow> valid_seg t \<Longrightarrow> CHR ''/'' \<notin> set t \<Longrightarrow> P h \<Longrightarrow>
           P (h @ CHR ''/'' # t)"
  shows "P p"
  using assms(1)
proof (induction p rule: measure_induct_rule [where f = length])
  case (less p)
  from less.prems show ?case
  proof (cases rule: path_split_valid)
    case single
    then show ?thesis
      using assms(2) [of p] split_slash_comp_no_slash [of p p] by simp
  next
    case (more h t)
    then have "length h < length p" by simp
    with less.IH [of h] more have "P h" by simp
    with more assms(3) [of h t] show ?thesis by simp
  qed
qed

text \<open>What \<open>stat\<close> says of a path says of its parent that it is a directory.\<close>

lemma stat_snoc:
  assumes "valid_rel h"
  shows "stat (h @ CHR ''/'' # t) s =
     (case walk (nodes s) (cwd s) (split_slash h) of
        Inl e \<Rightarrow> Inl e
      | Inr d \<Rightarrow>
          (case nodes s d of
             None \<Rightarrow> Inl FileNotFoundError
           | Some (File content) \<Rightarrow> Inl NotADirectoryError
           | Some Dir \<Rightarrow>
               (case walk (nodes s) d (split_slash t) of
                  Inl e \<Rightarrow> Inl e
                | Inr q \<Rightarrow>
                    (case nodes s q of None \<Rightarrow> Inl FileNotFoundError | Some n \<Rightarrow> Inr n))))"
proof -
  have sd: "start_dir (h @ CHR ''/'' # t) s = cwd s"
    using valid_rel_ends [OF assms] by (cases h) (auto simp: start_dir_def)
  have ne: "split_slash t \<noteq> []" by simp
  then obtain x xs where t: "split_slash t = x # xs" by (cases "split_slash t") auto
  show ?thesis
    unfolding stat_def sd split_slash_append walk_append
    by (auto simp: t split: sum.splits option.splits node.splits)
qed

lemma stat_valid:
  assumes "valid_rel h"
  shows "stat h s =
     (case walk (nodes s) (cwd s) (split_slash h) of
        Inl e \<Rightarrow> Inl e
      | Inr d \<Rightarrow> (case nodes s d of None \<Rightarrow> Inl FileNotFoundError | Some n \<Rightarrow> Inr n))"
  using valid_rel_ends [OF assms] valid_rel_start [OF assms] by (simp add: stat_def)

lemma stat_parent:
  assumes "valid_rel h" "stat (h @ CHR ''/'' # t) s = Inr n"
  shows "stat h s = Inr Dir"
  using assms(2) unfolding stat_snoc [OF assms(1)] stat_valid [OF assms(1)]
  by (auto split: sum.splits option.splits node.splits)

lemma isdir_parent:
  "valid_rel h \<Longrightarrow> isdir (h @ CHR ''/'' # t) s \<Longrightarrow> isdir h s"
  unfolding isdir_iff by (rule stat_parent)


lemma isdir_dot:
  "valid_rel h \<Longrightarrow> isdir h s \<Longrightarrow> isdir (h @ CHR ''/'' # ''.'') s"
  unfolding isdir_iff stat_snoc stat_valid
  by (auto simp: step_def split: sum.splits option.splits node.splits)

subsection \<open>\<open>mkdir\<close>\<close>

lemma lookup_parent_Inr:
  "lookup_parent comps start s = Inr d \<Longrightarrow>
   walk (nodes s) start (butlast comps) = Inr d \<and> nodes s d = Some Dir"
  by (auto simp: lookup_parent_def split: sum.splits option.splits node.splits)

lemma lookup_parent_not_exists:
  "lookup_parent comps start s \<noteq> Inl FileExistsError"
proof -
  have "walk ns d xs \<noteq> Inl FileExistsError" for ns d xs
    by (induction xs arbitrary: d) (auto split: option.splits node.splits)
  then show ?thesis
    by (auto simp: lookup_parent_def split: sum.splits option.splits node.splits)
qed

text \<open>A successful \<open>mkdir\<close> adds one directory, inside an existing directory.\<close>

lemma mkdir_Inr:
  assumes "mkdir p s = Inr s'"
  obtains d c where "lookup_parent (strip_trailing (split_slash p)) (start_dir p s) s = Inr d"
    and "c = last (strip_trailing (split_slash p))" and "c \<noteq> ''.''" and "c \<noteq> ''..''"
    and "nodes s d = Some Dir" and "nodes s (d @ [c]) = None"
    and "s' = s\<lparr>nodes := (nodes s)(d @ [c] \<mapsto> Dir)\<rparr>"
  using assms
  by (auto simp: mkdir_def Let_def dest: lookup_parent_Inr
      split: if_splits sum.splits option.splits)

lemma mkdir_grows: "mkdir p s = Inr s' \<Longrightarrow> grows s s'"
  by (erule mkdir_Inr) (simp add: grows_def)

lemma mkdir_wf_fs:
  assumes "mkdir p s = Inr s'" "wf_fs s"
  shows "wf_fs s'"
  using assms(1)
proof (rule mkdir_Inr)
  fix d c
  assume d: "nodes s d = Some Dir" and n: "nodes s (d @ [c]) = None"
    and s': "s' = s\<lparr>nodes := (nodes s)(d @ [c] \<mapsto> Dir)\<rparr>"
  show ?thesis
    unfolding wf_fs_def
  proof (intro allI impI)
    fix q m
    assume q: "nodes s' q = Some m" "q \<noteq> []"
    show "nodes s' (butlast q) = Some Dir"
    proof (cases "q = d @ [c]")
      case True
      with d n s' show ?thesis by auto
    next
      case False
      with q s' have "nodes s q = Some m" by simp
      with assms(2) q(2) have "nodes s (butlast q) = Some Dir" by (simp add: wf_fs_def)
      with n s' show ?thesis by auto
    qed
  qed
qed

text \<open>On a valid relative path: where \<open>mkdir\<close> creates, and why it fails.\<close>

lemma mkdir_valid_isdir:
  assumes "valid_rel p" "mkdir p s = Inr s'"
  shows "isdir p s'"
  using assms(2)
proof (rule mkdir_Inr)
  fix d c
  assume lp: "lookup_parent (strip_trailing (split_slash p)) (start_dir p s) s = Inr d"
    and c: "c = last (strip_trailing (split_slash p))" "c \<noteq> ''.''" "c \<noteq> ''..''"
    and s': "s' = s\<lparr>nodes := (nodes s)(d @ [c] \<mapsto> Dir)\<rparr>"
  from lp have lp': "lookup_parent (split_slash p) (cwd s) s = Inr d"
    by (simp add: valid_rel_strip valid_rel_start assms(1))
  from c have c': "c = last (split_slash p)" by (simp add: valid_rel_strip assms(1))
  with valid_rel_last [OF assms(1)] c have st: "step d c = d @ [c]"
    by (simp add: step_def valid_seg_def)
  have "walk (nodes s) (cwd s) (split_slash p) = Inr (d @ [c])"
    using lp' c' st by (simp add: lookup_parent_walk)
  then have "walk (nodes s') (cwd s) (split_slash p) = Inr (d @ [c])"
    by (rule walk_mono [rotated])
      (rule evolves_Dir [OF grows_evolves [OF mkdir_grows [OF assms(2)]]])
  with s' show ?thesis
    by (simp add: isdir_iff stat_valid [OF assms(1)])
qed


text \<open>
  \<open>mkdir\<close> raises \<open>FileExistsError\<close> on a valid path only when the path names something:
  a directory or a file.
\<close>

lemma mkdir_exists_error:
  assumes "valid_rel p" "mkdir p s = Inl FileExistsError"
  shows "\<exists>n. stat p s = Inr n"
proof -
  let ?comps = "split_slash p"
  from assms(2) obtain d where lp: "lookup_parent ?comps (cwd s) s = Inr d"
    and c: "last ?comps = ''.'' \<or> last ?comps = ''..'' \<or> nodes s (d @ [last ?comps]) \<noteq> None"
    using lookup_parent_not_exists [of ?comps "cwd s" s]
    by (auto simp: mkdir_def Let_def valid_rel_strip valid_rel_start assms(1)
        split: if_splits sum.splits option.splits)
  from lp have w: "walk (nodes s) (cwd s) ?comps = Inr (step d (last ?comps))"
    by (simp add: lookup_parent_walk)
  from lookup_parent_Inr [OF lp] have d: "nodes s d = Some Dir" by simp
  have "last ?comps \<noteq> ''..''" using valid_rel_last [OF assms(1)] by (simp add: valid_seg_def)
  with c d have "nodes s (step d (last ?comps)) \<noteq> None"
    by (auto simp: step_def)
  with w show ?thesis
    by (auto simp: stat_valid [OF assms(1)])
qed

subsection \<open>The guarded \<open>mkdir\<close> of \<open>os.makedirs\<close>\<close>

lemma try_mkdir_grows: "try_mkdir p ok s = (s', r) \<Longrightarrow> grows s s'"
  by (auto simp: try_mkdir_def grows_refl mkdir_grows split: sum.splits if_splits)

lemma try_mkdir_wf_fs: "try_mkdir p ok s = (s', r) \<Longrightarrow> wf_fs s \<Longrightarrow> wf_fs s'"
  by (auto simp: try_mkdir_def mkdir_wf_fs split: sum.splits if_splits)

lemma try_mkdir_None:
  "valid_rel p \<Longrightarrow> try_mkdir p True s = (s', None) \<Longrightarrow> isdir p s'"
  by (auto simp: try_mkdir_def mkdir_valid_isdir split: sum.splits if_splits)

lemma try_mkdir_Some:
  "try_mkdir p True s = (s', Some e) \<Longrightarrow> s' = s \<and> mkdir p s = Inl e \<and> \<not> isdir p s"
  by (auto simp: try_mkdir_def split: sum.splits if_splits)


lemma try_mkdir_exists_error:
  assumes "valid_rel p" "try_mkdir p True s = (s', Some FileExistsError)"
  shows "\<exists>c. stat p s = Inr (File c)"
proof -
  from try_mkdir_Some [OF assms(2)] have m: "mkdir p s = Inl FileExistsError" "\<not> isdir p s"
    by simp_all
  from mkdir_exists_error [OF assms(1) m(1)] obtain n where "stat p s = Inr n" by blast
  with m(2) show ?thesis by (cases n) (auto simp: isdir_iff)
qed

subsection \<open>\<open>os.makedirs\<close>\<close>

declare makedirs.simps [simp del]

text \<open>The head and tail \<open>os.makedirs\<close> works with: the path is split again when it ends in a slash.\<close>

lemma makedirs_unfold:
  assumes "(let (head, tail) = path_split name
            in if tail = [] then path_split head else (head, tail)) = (h, t)"
  shows "makedirs name ok s =
     (if h \<noteq> [] \<and> t \<noteq> [] \<and> \<not> path_exists h s then
        (case makedirs h ok s of
           (s1, r) \<Rightarrow>
             if r \<noteq> None \<and> r \<noteq> Some FileExistsError then (s1, r)
             else if t = curdir then (s1, None)
             else try_mkdir name ok s1)
      else try_mkdir name ok s)"
proof -
  obtain h0 t0 where ps: "path_split name = (h0, t0)" by (cases "path_split name")
  with assms have ht: "(if t0 = [] then path_split h0 else (h0, t0)) = (h, t)" by simp
  show ?thesis
    by (subst makedirs.simps) (simp only: ps ht Let_def prod.case)
qed

text \<open>
  Whatever relates the file systems before and after every guarded \<open>mkdir\<close>, and is
  transitive, relates them before and after \<open>os.makedirs\<close>, on any path string.
\<close>

lemma makedirs_rel:
  assumes step: "\<And>p ok s s' r. try_mkdir p ok s = (s', r) \<Longrightarrow> R s s'"
    and trans: "\<And>s t u. R s t \<Longrightarrow> R t u \<Longrightarrow> R s u"
  shows "makedirs name ok s = (s', r) \<Longrightarrow> R s s'"
proof (induction name ok s arbitrary: s' r rule: makedirs.induct)
  case (1 name ok s)
  obtain h t where ht: "(let (head, tail) = path_split name
      in if tail = [] then path_split head else (head, tail)) = (h, t)"
    by (cases "let (head, tail) = path_split name
      in if tail = [] then path_split head else (head, tail)")
  note mk = makedirs_unfold [OF ht, of ok s]
  show ?case
  proof (cases "h \<noteq> [] \<and> t \<noteq> [] \<and> \<not> path_exists h s")
    case False
    with mk "1.prems" have "try_mkdir name ok s = (s', r)" by auto
    then show ?thesis by (rule step)
  next
    case True
    obtain s1 r1 where r1: "makedirs h ok s = (s1, r1)" by (cases "makedirs h ok s")
    have "R s s1"
    proof (rule "1.IH" [OF refl _ refl _ _ r1])
      show "(fst (path_split name), snd (path_split name)) = path_split name" by simp
      show "(h, t) = (if snd (path_split name) = [] then path_split (fst (path_split name))
          else (fst (path_split name), snd (path_split name)))"
        using ht by (auto simp: Let_def split: prod.splits if_splits)
      show "h \<noteq> [] \<and> t \<noteq> [] \<and> \<not> path_exists h s" by (rule True)
    qed
    show ?thesis
    proof (cases "r1 \<noteq> None \<and> r1 \<noteq> Some FileExistsError \<or> t = curdir")
      case True
      with mk \<open>h \<noteq> [] \<and> t \<noteq> [] \<and> \<not> path_exists h s\<close> r1 "1.prems" have "s' = s1"
        by (auto split: if_splits)
      with \<open>R s s1\<close> show ?thesis by simp
    next
      case False
      with mk \<open>h \<noteq> [] \<and> t \<noteq> [] \<and> \<not> path_exists h s\<close> r1 "1.prems"
      have "try_mkdir name ok s1 = (s', r)"
        by (auto split: if_splits)
      with \<open>R s s1\<close> show ?thesis
        by (blast intro: trans step)
    qed
  qed
qed


lemma makedirs_grows: "makedirs name ok s = (s', r) \<Longrightarrow> grows s s'"
  by (erule makedirs_rel [rotated 2]) (blast intro: try_mkdir_grows grows_trans)+

lemma makedirs_wf_fs:
  assumes "makedirs name ok s = (s', r)" "wf_fs s"
  shows "wf_fs s'"
proof -
  have "wf_fs s \<longrightarrow> wf_fs s'"
    using assms(1)
    by (rule makedirs_rel [where R = "\<lambda>s s'. wf_fs s \<longrightarrow> wf_fs s'", rotated 2])
      (blast intro: try_mkdir_wf_fs)+
  with assms(2) show ?thesis by simp
qed

text \<open>\<open>os.makedirs\<close> on a valid relative path, by the number of its segments.\<close>

lemma makedirs_single:
  assumes "valid_seg p" "CHR ''/'' \<notin> set p"
  shows "makedirs p ok s = try_mkdir p ok s"
proof -
  from assms have "(let (head, tail) = path_split p
      in if tail = [] then path_split head else (head, tail)) = ([], p)"
    by (simp add: path_split_no_slash valid_seg_def)
  from makedirs_unfold [OF this] show ?thesis by simp
qed

lemma makedirs_more:
  assumes "valid_rel h" "valid_seg t" "CHR ''/'' \<notin> set t"
  shows "makedirs (h @ CHR ''/'' # t) ok s =
     (if \<not> path_exists h s then
        (case makedirs h ok s of
           (s1, r) \<Rightarrow>
             if r \<noteq> None \<and> r \<noteq> Some FileExistsError then (s1, r)
             else if t = curdir then (s1, None)
             else try_mkdir (h @ CHR ''/'' # t) ok s1)
      else try_mkdir (h @ CHR ''/'' # t) ok s)"
proof -
  from assms valid_rel_ends [OF assms(1)]
  have "(let (head, tail) = path_split (h @ CHR ''/'' # t)
      in if tail = [] then path_split head else (head, tail)) = (h, t)"
    by (simp add: path_split_slash valid_seg_def)
  from makedirs_unfold [OF this, of ok s] assms(2) valid_rel_ends(1) [OF assms(1)]
  show ?thesis by (simp add: valid_seg_def)
qed

text \<open>
  A path that resolves after directories were added to a well-formed file system, to a
  node that was there before, resolved before: the directories above an old node are old.
\<close>

lemma walk_back:
  assumes "wf_fs s" "grows s t"
  shows "walk (nodes t) d xs = Inr q \<Longrightarrow> nodes s q \<noteq> None \<Longrightarrow> ''..'' \<notin> set xs \<Longrightarrow>
    walk (nodes s) d xs = Inr q"
proof (induction xs arbitrary: q rule: rev_induct)
  case Nil
  then show ?case by simp
next
  case (snoc x xs)
  from snoc.prems(1) obtain q' where w: "walk (nodes t) d xs = Inr q'"
    and d: "nodes t q' = Some Dir" and q: "q = step q' x"
    by (auto simp: walk_snoc split: sum.splits option.splits node.splits)
  from snoc.prems(3) have x: "x \<noteq> ''..''" and xs: "''..'' \<notin> set xs" by auto
  have old: "nodes s q' = Some Dir"
  proof (cases "x = [] \<or> x = ''.''")
    case True
    with q have "q = q'" by (auto simp: step_def)
    moreover from assms(2)
    have "nodes t q' = nodes s q' \<or> nodes s q' = None \<and> nodes t q' = Some Dir"
      by (simp add: grows_def)
    ultimately show ?thesis using snoc.prems(2) d by auto
  next
    case False
    with q x have "q = q' @ [x]" by (simp add: step_def)
    moreover from snoc.prems(2) obtain n where "nodes s q = Some n" by auto
    ultimately have "nodes s (butlast (q' @ [x])) = Some Dir"
      using assms(1) unfolding wf_fs_def by blast
    then show ?thesis by simp
  qed
  then have "walk (nodes s) d xs = Inr q'"
    using snoc.IH [OF w _ xs] by simp
  with old q show ?case by (simp add: walk_snoc)
qed

lemma stat_back:
  assumes "wf_fs s" "grows s t" "valid_rel p" "stat p t = Inr (File c)"
  shows "stat p s = Inr (File c)"
proof -
  from assms(4) obtain q where w: "walk (nodes t) (cwd t) (split_slash p) = Inr q"
    and n: "nodes t q = Some (File c)"
    by (auto simp: stat_valid [OF assms(3)] split: sum.splits option.splits)
  from grows_back [OF assms(2) n] have n': "nodes s q = Some (File c)" .
  have cwd: "cwd t = cwd s" using assms(2) by (simp add: grows_def)
  have "walk (nodes s) (cwd s) (split_slash p) = Inr q"
    using walk_back [OF assms(1,2) w [unfolded cwd]] n' valid_rel_no_dotdot [OF assms(3)]
    by simp
  with n' show ?thesis by (simp add: stat_valid [OF assms(3)])
qed

lemma mkdir_in_dir_error:
  assumes "valid_rel p" "mkdir p s = Inl e" "lookup_parent (split_slash p) (cwd s) s = Inr d"
  shows "e = FileExistsError"
proof -
  have "p \<noteq> []" using valid_rel_ends [OF assms(1)] by simp
  with assms(2,3) show ?thesis
    unfolding mkdir_def Let_def valid_rel_strip [OF assms(1)] valid_rel_start [OF assms(1)]
    by (simp split: if_splits option.splits)
qed

text \<open>
  \<open>os.makedirs(p, exist_ok=True)\<close> on a valid relative path in a well-formed file system:
  when it returns, \<open>p\<close> is a directory; it raises \<open>FileExistsError\<close> only when \<open>p\<close> was a
  file; and when it raises, it has changed nothing.
\<close>

lemma makedirs_valid:
  assumes "valid_rel p"
  shows "wf_fs s \<Longrightarrow> makedirs p True s = (s', r) \<Longrightarrow>
    (r = None \<longrightarrow> isdir p s') \<and>
    (r = Some FileExistsError \<longrightarrow> (\<exists>c. stat p s = Inr (File c))) \<and>
    (r \<noteq> None \<longrightarrow> s' = s)"
  using assms
proof (induction p arbitrary: s s' r rule: valid_rel_induct)
  case (single p)
  then have v: "valid_rel p" by (simp add: valid_rel_def split_slash_no_slash)
  from single have t: "try_mkdir p True s = (s', r)" by (simp add: makedirs_single)
  show ?case
  proof (cases r)
    case None
    with t v show ?thesis by (simp add: try_mkdir_None)
  next
    case (Some e)
    with t have "s' = s" by (simp add: try_mkdir_Some)
    with Some t v show ?thesis by (auto dest: try_mkdir_exists_error)
  qed
next
  case (more h t)
  let ?p = "h @ CHR ''/'' # t"
  have v: "valid_rel ?p" using more.hyps by (simp add: valid_rel_snoc)
  note mk = makedirs_more [OF more.hyps(1-3), of True s]
  have leaf: ?case if t: "try_mkdir ?p True s = (s', r)"
  proof (cases r)
    case None
    with t v show ?thesis by (simp add: try_mkdir_None)
  next
    case (Some e)
    with t have "s' = s" by (simp add: try_mkdir_Some)
    with Some t v show ?thesis by (auto dest: try_mkdir_exists_error)
  qed
  show ?case
  proof (cases "path_exists h s")
    case True
    with mk more.prems(2) have "try_mkdir ?p True s = (s', r)" by simp
    then show ?thesis by (rule leaf)
  next
    case False
    obtain s1 r1 where r1: "makedirs h True s = (s1, r1)" by (cases "makedirs h True s")
    note ih = more.IH [OF more.prems(1) r1]
    have g: "grows s s1" using r1 by (rule makedirs_grows)
    have wf1: "wf_fs s1" using r1 more.prems(1) by (rule makedirs_wf_fs)
    have not_fee: "r1 \<noteq> Some FileExistsError"
      using ih False by (auto simp: path_exists_def)
    show ?thesis
    proof (cases r1)
      case (Some e)
      with mk False r1 not_fee more.prems(2) have "s' = s1" "r = r1" by auto
      with ih Some not_fee show ?thesis by auto
    next
      case None
      with ih have dir: "isdir h s1" by simp
      show ?thesis
      proof (cases "t = curdir")
        case True
        with mk False r1 None more.prems(2) have "s' = s1" "r = None" by auto
        with dir True more.hyps(1) show ?thesis by (simp add: curdir_def isdir_dot)
      next
        case nd: False
        with mk False r1 None more.prems(2) have t: "try_mkdir ?p True s1 = (s', r)" by auto
        show ?thesis
        proof (cases r)
          case None
          with t v show ?thesis by (simp add: try_mkdir_None)
        next
          case (Some e)
          from t Some have m: "mkdir ?p s1 = Inl e" "\<not> isdir ?p s1" "s' = s1"
            by (simp_all add: try_mkdir_Some)
          have "e = FileExistsError"
          proof -
            from dir obtain d where w: "walk (nodes s1) (cwd s1) (split_slash h) = Inr d"
              and d: "nodes s1 d = Some Dir"
              by (auto simp: isdir_iff stat_valid [OF more.hyps(1)]
                  split: sum.splits option.splits)
            have "lookup_parent (split_slash ?p) (cwd s1) s1 = Inr d"
              using w d by (simp add: lookup_parent_def valid_rel_snoc(2) [OF more.hyps(1-3)])
            with m(1) show ?thesis
              by (rule mkdir_in_dir_error [OF v])
          qed
          with t Some have "\<exists>c. stat ?p s1 = Inr (File c)"
            using try_mkdir_exists_error [OF v] by simp
          then obtain c where "stat ?p s1 = Inr (File c)" ..
          from stat_back [OF more.prems(1) g v this] have "stat ?p s = Inr (File c)" .
          from stat_parent [OF more.hyps(1) this] have "path_exists h s"
            by (simp add: path_exists_def)
          with False show ?thesis by simp
        qed
      qed
    qed
  qed
qed


subsection \<open>Opening and writing a file\<close>

lemma open_w_Inr:
  assumes "open_w p s = Inr (q, s')"
  obtains d c where "p \<noteq> []" and "lookup_parent (split_slash p) (start_dir p s) s = Inr d"
    and "c = last (split_slash p)" and "c \<noteq> []" and "c \<noteq> ''.''" and "c \<noteq> ''..''"
    and "q = d @ [c]" and "nodes s q \<noteq> Some Dir"
    and "s' = s\<lparr>nodes := (nodes s)(q \<mapsto> File [])\<rparr>"
  using assms
  by (auto simp: open_w_def Let_def split: if_splits sum.splits option.splits node.splits)

lemma nodes_upd_same: "nodes s q = Some n \<Longrightarrow> s\<lparr>nodes := (nodes s)(q \<mapsto> n)\<rparr> = s"
  by (simp add: map_upd_triv)

lemma file_write_Nil: "file_write f [] s = s"
  by (auto simp: file_write_def nodes_upd_same split: option.splits node.splits)

lemma write_text_Some:
  "write_text p data s = (s', Some e) \<Longrightarrow> s' = s \<and> open_w p s = Inl e"
  by (auto simp: write_text_def split: sum.splits)

lemma write_text_None:
  "write_text p [] s = (s', None) \<Longrightarrow> \<exists>q. open_w p s = Inr (q, s')"
  by (auto simp: write_text_def file_write_Nil split: sum.splits)

lemma open_w_evolves:
  assumes "open_w p s = Inr (q, s')"
  shows "evolves s s'"
  using assms
proof (rule open_w_Inr)
  assume n: "nodes s q \<noteq> Some Dir" and s': "s' = s\<lparr>nodes := (nodes s)(q \<mapsto> File [])\<rparr>"
  show ?thesis
    unfolding evolves_def
  proof (intro conjI allI)
    show "cwd s' = cwd s" using s' by simp
    fix x
    show "nodes s' x = nodes s x
        \<or> (nodes s x = None \<and> (nodes s' x = Some Dir \<or> nodes s' x = Some (File [])))
        \<or> (\<exists>c. nodes s x = Some (File c) \<and> nodes s' x = Some (File []))"
    proof (cases "x = q")
      case False
      with s' show ?thesis by simp
    next
      case True
      show ?thesis
      proof (cases "nodes s q")
        case None
        with True s' show ?thesis by simp
      next
        case (Some m)
        with n obtain c where "m = File c" by (cases m) auto
        with Some True s' show ?thesis by simp
      qed
    qed
  qed
qed

lemma open_w_wf_fs:
  assumes "open_w p s = Inr (q, s')" "wf_fs s"
  shows "wf_fs s'"
  using assms(1)
proof (rule open_w_Inr)
  fix d c
  assume lp: "lookup_parent (split_slash p) (start_dir p s) s = Inr d"
    and q: "q = d @ [c]" and n: "nodes s q \<noteq> Some Dir"
    and s': "s' = s\<lparr>nodes := (nodes s)(q \<mapsto> File [])\<rparr>"
  from lookup_parent_Inr [OF lp] have d: "nodes s d = Some Dir" by simp
  show ?thesis
    unfolding wf_fs_def
  proof (intro allI impI)
    fix x m
    assume x: "nodes s' x = Some m" "x \<noteq> []"
    have "nodes s (butlast x) = Some Dir"
    proof (cases "x = q")
      case True
      with q d show ?thesis by simp
    next
      case False
      with x s' have "nodes s x = Some m" by simp
      with assms(2) x(2) show ?thesis by (simp add: wf_fs_def)
    qed
    moreover from this n have "butlast x \<noteq> q" by auto
    ultimately show "nodes s' (butlast x) = Some Dir" using s' by simp
  qed
qed

text \<open>After \<open>open(p, 'w')\<close> the path \<open>p\<close>, whatever string it is, names an empty file.\<close>

lemma open_w_stat:
  assumes "open_w p s = Inr (q, s')"
  shows "stat p s' = Inr (File [])"
  using assms
proof (rule open_w_Inr)
  fix d c
  assume p: "p \<noteq> []" and lp: "lookup_parent (split_slash p) (start_dir p s) s = Inr d"
    and c: "c = last (split_slash p)" "c \<noteq> []" "c \<noteq> ''.''" "c \<noteq> ''..''"
    and q: "q = d @ [c]" and s': "s' = s\<lparr>nodes := (nodes s)(q \<mapsto> File [])\<rparr>"
  have "walk (nodes s) (start_dir p s) (split_slash p) = Inr q"
    using lp c q by (simp add: lookup_parent_walk step_def)
  then have "walk (nodes s') (start_dir p s) (split_slash p) = Inr q"
    by (rule walk_mono [rotated]) (rule evolves_Dir [OF open_w_evolves [OF assms]])
  moreover have "start_dir p s' = start_dir p s" using s' by (simp add: start_dir_def)
  ultimately show ?thesis using p s' by (simp add: stat_def)
qed


lemma write_text_evolves: "write_text p [] s = (s', r) \<Longrightarrow> evolves s s'"
  by (cases r) (auto dest: write_text_None write_text_Some open_w_evolves simp: evolves_refl)

lemma write_text_wf_fs: "write_text p [] s = (s', r) \<Longrightarrow> wf_fs s \<Longrightarrow> wf_fs s'"
  by (cases r) (auto dest: write_text_None write_text_Some open_w_wf_fs)

lemma write_text_stat: "write_text p [] s = (s', None) \<Longrightarrow> stat p s' = Inr (File [])"
  by (auto dest: write_text_None open_w_stat)

subsection \<open>The inner loop\<close>

lemma create_files_Cons:
  assumes "create_files full (f # files) s = (s', r)"
  obtains (raised) e where "write_text (path_join full f) [] s = (s', Some e)" "r = Some e"
  | (went_on) s1 where "write_text (path_join full f) [] s = (s1, None)"
      "create_files full files s1 = (s', r)"
  using assms by (auto simp: Let_def split: prod.splits option.splits)

lemma create_files_evolves: "create_files full files s = (s', r) \<Longrightarrow> evolves s s'"
proof (induction files arbitrary: s)
  case Nil
  then show ?case by (simp add: evolves_refl)
next
  case (Cons f files)
  from Cons.prems show ?case
  proof (cases rule: create_files_Cons)
    case (raised e)
    then show ?thesis by (auto dest: write_text_evolves)
  next
    case (went_on s1)
    then show ?thesis by (blast intro: evolves_trans write_text_evolves Cons.IH)
  qed
qed

lemma create_files_wf_fs: "create_files full files s = (s', r) \<Longrightarrow> wf_fs s \<Longrightarrow> wf_fs s'"
proof (induction files arbitrary: s)
  case Nil
  then show ?case by simp
next
  case (Cons f files)
  from Cons.prems(1) show ?case
  proof (cases rule: create_files_Cons)
    case (raised e)
    with Cons.prems(2) show ?thesis by (auto dest: write_text_wf_fs)
  next
    case (went_on s1)
    with Cons.prems(2) show ?thesis by (blast intro: write_text_wf_fs Cons.IH)
  qed
qed

lemma create_files_stat:
  "create_files full files s = (s', None) \<Longrightarrow> f \<in> set files \<Longrightarrow>
   stat (path_join full f) s' = Inr (File [])"
proof (induction files arbitrary: s)
  case Nil
  then show ?case by simp
next
  case (Cons x files)
  from Cons.prems(1) show ?case
  proof (cases rule: create_files_Cons)
    case (raised e)
    then show ?thesis by simp
  next
    case (went_on s1)
    show ?thesis
    proof (cases "f = x")
      case True
      from went_on(1) have "stat (path_join full x) s1 = Inr (File [])"
        by (rule write_text_stat)
      with stat_evolves_File [OF create_files_evolves [OF went_on(2)]] True
      show ?thesis by auto
    next
      case False
      with Cons.prems(2) Cons.IH [OF went_on(2)] show ?thesis by simp
    qed
  qed
qed

subsection \<open>The outer loop\<close>

lemma run_Cons:
  assumes "run base ((folder, files) # rest) s = (s', r)"
  obtains (makedirs_raised) e where
      "makedirs (path_join base folder) True s = (s', Some e)" "r = Some e"
  | (files_raised) s1 e where
      "makedirs (path_join base folder) True s = (s1, None)"
      "create_files (path_join base folder) files s1 = (s', Some e)" "r = Some e"
  | (went_on) s1 s2 where
      "makedirs (path_join base folder) True s = (s1, None)"
      "create_files (path_join base folder) files s1 = (s2, None)"
      "run base rest s2 = (s', r)"
  using assms by (auto simp: Let_def split: prod.splits option.splits)

lemma run_evolves: "run base spec s = (s', r) \<Longrightarrow> evolves s s'"
proof (induction spec arbitrary: s)
  case Nil
  then show ?case by (simp add: evolves_refl)
next
  case (Cons entry spec)
  obtain folder files where entry: "entry = (folder, files)" by (cases entry)
  from Cons.prems [unfolded entry] show ?case
  proof (cases rule: run_Cons)
    case (makedirs_raised e)
    then show ?thesis by (blast intro: grows_evolves makedirs_grows)
  next
    case (files_raised s1 e)
    then show ?thesis
      by (blast intro: evolves_trans grows_evolves makedirs_grows create_files_evolves)
  next
    case (went_on s1 s2)
    then show ?thesis
      by (blast intro: evolves_trans grows_evolves makedirs_grows create_files_evolves
          Cons.IH)
  qed
qed


subsection \<open>Running the script on concrete file systems\<close>

text \<open>
  An equation for \<open>split_slash\<close> that evaluates the recursive call once, and the
  definitions that evaluate a run on a concrete file system.
\<close>

lemma split_slash_eval:
  "split_slash (c # cs) =
     (case split_slash cs of
        [] \<Rightarrow> []
      | x # xs \<Rightarrow> if c = CHR ''/'' then [] # x # xs else (c # x) # xs)"
  using split_slash_not_Nil [of cs] by (cases "split_slash cs") auto

lemmas eval_defs = path_join_def makedirs.simps path_split_def rstrip_slash_def
    path_exists_def stat_def start_dir_def step_def
    try_mkdir_def mkdir_def strip_trailing_def lookup_parent_def isdir_def curdir_def
    write_text_def open_w_def file_write_def Let_def split_slash_eval

lemma wf_fs_empty_project: "wf_fs empty_project"
  by (auto simp: wf_fs_def empty_project_def split: if_splits)

lemma valid_rel_base_dir: "valid_rel base_dir"
  by (simp add: valid_rel_def valid_seg_def base_dir_def split_slash_eval
      del: split_slash.simps(2))

lemma valid_spec_structure: "valid_spec structure"
  by (simp add: valid_spec_def valid_rel_def valid_seg_def valid_file_name_def structure_def
      split_slash_eval del: split_slash.simps(2))

lemma valid_spec_folders: "valid_spec spec \<Longrightarrow> valid_folders spec"
  by (auto simp: valid_spec_def valid_folders_def list_all_iff)

lemma main_empty_project: "main empty_project = (fst (main empty_project), None)"
proof -
  have "snd (main empty_project) = None"
    by (simp add: main_def structure_def empty_project_def base_dir_def eval_defs
        del: split_slash.simps(2) cong: prod.case_cong_weak)
  then show ?thesis by (simp add: prod_eq_iff)
qed

subsection \<open>What a run that raised nothing leaves behind\<close>

lemma run_isdir:
  assumes "wf_fs s" and "valid_rel base" and "valid_folders spec"
    and "run base spec s = (s', None)" and "(folder, files) \<in> set spec"
  shows "isdir (path_join base folder) s'"
  using assms(1,3,4,5)
proof (induction spec arbitrary: s)
  case Nil
  then show ?case by simp
next
  case (Cons entry spec)
  obtain d fs where entry: "entry = (d, fs)" by (cases entry)
  from Cons.prems(2) entry have vd: "valid_rel d" and vs: "valid_folders spec"
    by (simp_all add: valid_folders_def)
  from Cons.prems(3) [unfolded entry] show ?case
  proof (cases rule: run_Cons)
    case (went_on s1 s2)
    have wf2: "wf_fs s2"
      using went_on Cons.prems(1) by (blast intro: makedirs_wf_fs create_files_wf_fs)
    show ?thesis
    proof (cases "(folder, files) = (d, fs)")
      case True
      have "isdir (path_join base d) s1"
        using makedirs_valid [OF valid_rel_join(1) [OF assms(2) vd] Cons.prems(1) went_on(1)]
        by simp
      then have "isdir (path_join base d) s2"
        by (rule isdir_evolves [OF create_files_evolves [OF went_on(2)]])
      then have "isdir (path_join base d) s'"
        by (rule isdir_evolves [OF run_evolves [OF went_on(3)]])
      with True show ?thesis by simp
    next
      case False
      with Cons.prems(4) entry have "(folder, files) \<in> set spec" by auto
      from Cons.IH [OF wf2 vs went_on(3) this] show ?thesis .
    qed
  qed simp_all
qed

lemma run_stat:
  assumes "run base spec s = (s', None)"
    and "(folder, files) \<in> set spec" and "file_name \<in> set files"
  shows "stat (path_join (path_join base folder) file_name) s' = Inr (File [])"
  using assms(1,2)
proof (induction spec arbitrary: s)
  case Nil
  then show ?case by simp
next
  case (Cons entry spec)
  obtain d fs where entry: "entry = (d, fs)" by (cases entry)
  from Cons.prems(1) [unfolded entry] show ?case
  proof (cases rule: run_Cons)
    case (went_on s1 s2)
    show ?thesis
    proof (cases "(folder, files) = (d, fs)")
      case True
      with went_on(2) assms(3)
      have "stat (path_join (path_join base folder) file_name) s2 = Inr (File [])"
        by (auto intro: create_files_stat)
      with stat_evolves_File [OF run_evolves [OF went_on(3)]] show ?thesis by auto
    next
      case False
      with Cons.prems(2) entry have "(folder, files) \<in> set spec" by auto
      from Cons.IH [OF went_on(3) this] show ?thesis .
    qed
  qed simp_all
qed

subsection \<open>Running again\<close>





text \<open>
  The same file system with the content of one file replaced: paths resolve as before,
  and the run, which empties that file at most, ends in one of the two.
\<close>

lemma start_dir_nodes_update [simp]: "start_dir p (s\<lparr>nodes := ns\<rparr>) = start_dir p s"
  by (simp add: start_dir_def)




lemma nodes_upd_upd: "s\<lparr>nodes := (nodes s)(q \<mapsto> m)\<rparr>\<lparr>nodes :=
    (nodes (s\<lparr>nodes := (nodes s)(q \<mapsto> m)\<rparr>))(q \<mapsto> n)\<rparr> = s\<lparr>nodes := (nodes s)(q \<mapsto> n)\<rparr>"
  by simp






lemma valid_folders_entry:
  "valid_folders spec \<Longrightarrow> (folder, files) \<in> set spec \<Longrightarrow> valid_rel folder"
  by (auto simp: valid_folders_def list_all_iff)


lemma path_join_folder:
  assumes "valid_rel base" "valid_rel folder"
  shows "path_join base folder = base @ CHR ''/'' # folder"
  using valid_rel_ends [OF assms(2)] by (intro path_join_valid [OF assms(1)]) simp

subsection \<open>Where a run stops\<close>

lemma create_files_raised:
  "create_files full files s = (s', Some e) \<Longrightarrow>
   \<exists>fpre f frest. files = fpre @ f # frest \<and> create_files full fpre s = (s', None)
     \<and> open_w (path_join full f) s' = Inl e"
proof (induction files arbitrary: s)
  case Nil
  then show ?case by simp
next
  case (Cons x files)
  from Cons.prems show ?case
  proof (cases rule: create_files_Cons)
    case (raised e')
    then have "s' = s" "open_w (path_join full x) s = Inl e"
      by (auto dest: write_text_Some)
    then have "x # files = [] @ x # files \<and> create_files full [] s = (s', None)
        \<and> open_w (path_join full x) s' = Inl e"
      by simp
    then show ?thesis by blast
  next
    case (went_on s1)
    from Cons.IH [OF went_on(2)] obtain fpre f frest where
      "files = fpre @ f # frest" "create_files full fpre s1 = (s', None)"
      "open_w (path_join full f) s' = Inl e"
      by blast
    with went_on(1) have "x # files = (x # fpre) @ f # frest
        \<and> create_files full (x # fpre) s = (s', None) \<and> open_w (path_join full f) s' = Inl e"
      by simp
    then show ?thesis by blast
  qed
qed

lemma run_append:
  "run base (pre @ rest) s =
     (case run base pre s of (s1, Some e) \<Rightarrow> (s1, Some e) | (s1, None) \<Rightarrow> run base rest s1)"
proof (induction pre arbitrary: s)
  case Nil
  then show ?case by simp
next
  case (Cons entry pre)
  obtain d fs where entry: "entry = (d, fs)" by (cases entry)
  show ?case
    by (simp add: entry Cons.IH Let_def split: prod.splits option.splits)
qed

lemma run_raised:
  "run base spec s = (s', Some e) \<Longrightarrow>
   \<exists>pre folder files rest s1. spec = pre @ (folder, files) # rest
     \<and> run base pre s = (s1, None)
     \<and> (makedirs (path_join base folder) True s1 = (s', Some e)
        \<or> (\<exists>s2. makedirs (path_join base folder) True s1 = (s2, None)
              \<and> create_files (path_join base folder) files s2 = (s', Some e)))"
proof (induction spec arbitrary: s)
  case Nil
  then show ?case by simp
next
  case (Cons entry spec)
  obtain d fs where entry: "entry = (d, fs)" by (cases entry)
  from Cons.prems [unfolded entry] show ?case
  proof (cases rule: run_Cons)
    case (makedirs_raised e')
    then have "entry # spec = [] @ (d, fs) # spec \<and> run base [] s = (s, None)
      \<and> makedirs (path_join base d) True s = (s', Some e)"
      by (simp add: entry)
    then show ?thesis by blast
  next
    case (files_raised s1 e')
    then have "entry # spec = [] @ (d, fs) # spec \<and> run base [] s = (s, None)
      \<and> makedirs (path_join base d) True s = (s1, None)
      \<and> create_files (path_join base d) fs s1 = (s', Some e)"
      by (simp add: entry)
    then show ?thesis by blast
  next
    case (went_on s1 s2)
    from Cons.IH [OF went_on(3)] obtain pre folder files rest t where t:
      "spec = pre @ (folder, files) # rest" "run base pre s2 = (t, None)"
      "makedirs (path_join base folder) True t = (s', Some e)
        \<or> (\<exists>s2. makedirs (path_join base folder) True t = (s2, None)
              \<and> create_files (path_join base folder) files s2 = (s', Some e))"
      by blast
    from t(1,2) went_on(1,2)
    have "entry # spec = (entry # pre) @ (folder, files) # rest
        \<and> run base (entry # pre) s = (t, None)"
      by (simp add: entry)
    with t(3) show ?thesis by blast
  qed
qed

subsection \<open>When \<open>os.makedirs\<close> succeeds\<close>








subsection \<open>What a run may change\<close>











section \<open>The claims\<close>

text \<open>
  C1. After a run that raised nothing, every folder of the table is a directory:
  \<open>os.path.isdir(os.path.join(base, folder))\<close> holds for every entry. The table's folders
  and the base are valid relative paths, and the run starts on a well-formed file
  system.
\<close>

theorem run_creates_directories:
  assumes "wf_fs s" and "valid_rel base" and "valid_folders spec"
    and "run base spec s = (s', None)" and "(folder, files) \<in> set spec"
  shows "isdir (path_join base folder) s'"
proof -
  let ?full_folder_path = "path_join base folder"
  from assms have "isdir ?full_folder_path s'"
    by (rule run_isdir)
  then show ?thesis .
qed

theorem run_creates_directories_witness:
  "wf_fs empty_project \<and> valid_rel base_dir \<and> valid_folders structure
   \<and> main empty_project = (fst (main empty_project), None)
   \<and> isdir (path_join base_dir ''components/auth'') (fst (main empty_project))"
proof -
  have in_table: "(''components/auth'', [''LoginPage.jsx'', ''ProtectedRoute.jsx'']) \<in> set structure"
    by (simp add: structure_def)
  note folders = valid_spec_folders [OF valid_spec_structure]
  from run_creates_directories [OF wf_fs_empty_project valid_rel_base_dir folders
      main_empty_project [unfolded main_def] in_table]
  show ?thesis
    using wf_fs_empty_project valid_rel_base_dir folders main_empty_project
    by (simp add: main_def)
qed

text \<open>
  C2. After a run that raised nothing, every file of the table exists and is empty:
  \<open>stat\<close> finds a regular file whose content is the empty string. This needs nothing of
  the file system the run started on, nor of the strings in the table.
\<close>

theorem run_creates_empty_files:
  assumes "run base spec s = (s', None)"
    and "(folder, files) \<in> set spec" and "file_name \<in> set files"
  shows "stat (path_join (path_join base folder) file_name) s' = Inr (File [])"
proof -
  let ?file_path = "path_join (path_join base folder) file_name"
  from assms have "stat ?file_path s' = Inr (File [])"
    by (rule run_stat)
  then show ?thesis .
qed

theorem run_creates_empty_files_witness:
  "main empty_project = (fst (main empty_project), None)
   \<and> stat (path_join (path_join base_dir ''hooks'') ''useAuth.js'') (fst (main empty_project))
     = Inr (File [])"
proof -
  have in_table: "(''hooks'', [''useAuth.js'']) \<in> set structure"
    by (simp add: structure_def)
  from run_creates_empty_files [OF main_empty_project [unfolded main_def] in_table, of "''useAuth.js''"]
  show ?thesis
    using main_empty_project by (simp add: main_def)
qed





text \<open>
  C5. \<open>os.makedirs\<close> creates the intermediate directories: after a run that raised
  nothing, every proper prefix of a folder of the table that ends before a slash (\<open>a\<close> and
  \<open>a/b\<close> for the folder \<open>a/b/c\<close>) is a directory under the base, whether or not it existed
  before.
\<close>

theorem run_creates_intermediate_directories:
  assumes "wf_fs s" and "valid_rel base" and "valid_folders spec"
    and "run base spec s = (s', None)" and "(folder, files) \<in> set spec"
    and "folder = parent @ CHR ''/'' # rest"
  shows "isdir (path_join base parent) s'"
proof -
  have vf: "valid_rel folder" using assms(3,5) by (rule valid_folders_entry)
  then have vp: "valid_rel parent"
    unfolding assms(6) by (simp add: valid_rel_def split_slash_append)
  have vh: "valid_rel (path_join base parent)" using assms(2) vp by (rule valid_rel_join)
  have "isdir (path_join base folder) s'" using assms(1-5) by (rule run_isdir)
  moreover have "path_join base folder = path_join base parent @ CHR ''/'' # rest"
    using path_join_folder [OF assms(2) vf] path_join_folder [OF assms(2) vp]
    by (simp add: assms(6))
  ultimately show ?thesis using isdir_parent [OF vh] by simp
qed

theorem run_creates_intermediate_directories_witness:
  "wf_fs empty_project \<and> valid_rel base_dir \<and> valid_folders nested_table
   \<and> \<not> path_exists ''src'' empty_project
   \<and> run base_dir nested_table empty_project
       = (fst (run base_dir nested_table empty_project), None)
   \<and> isdir (path_join base_dir ''a'') (fst (run base_dir nested_table empty_project))
   \<and> isdir (path_join base_dir ''a/b'') (fst (run base_dir nested_table empty_project))"
proof -
  have folders: "valid_folders nested_table"
    by (simp add: nested_table_def valid_folders_def valid_rel_def valid_seg_def
        split_slash_eval del: split_slash.simps(2))
  have fresh: "\<not> path_exists ''src'' empty_project"
    by (simp add: empty_project_def path_exists_def stat_def start_dir_def step_def
        split_slash_eval del: split_slash.simps(2))
  have "snd (run base_dir nested_table empty_project) = None"
    by (simp add: nested_table_def empty_project_def base_dir_def eval_defs
        del: split_slash.simps(2) cong: prod.case_cong_weak)
  then have ok: "run base_dir nested_table empty_project
      = (fst (run base_dir nested_table empty_project), None)"
    by (simp add: prod_eq_iff)
  have in_table: "(''a/b/c'', []) \<in> set nested_table"
    by (simp add: nested_table_def)
  note created = run_creates_intermediate_directories [OF wf_fs_empty_project valid_rel_base_dir
      folders ok in_table]
  from created [of "''a''" "''b/c''"] created [of "''a/b''" "''c''"]
  show ?thesis
    using wf_fs_empty_project valid_rel_base_dir folders fresh ok by simp
qed



text \<open>
  C8. The table of the script satisfies the data model: \<open>base_dir\<close> and every folder are
  relative paths of non-empty segments separated by slashes (the folder \<open>.\<close> among them),
  and no file name is empty or contains a slash.
\<close>

theorem table_data_model:
  "valid_rel base_dir \<and> valid_spec structure
   \<and> (''.'', [''App.jsx'', ''main.jsx'', ''routes.jsx'']) \<in> set structure"
proof (intro conjI)
  show "valid_rel base_dir" by (rule valid_rel_base_dir)
  show "valid_spec structure" by (rule valid_spec_structure)
  show "(''.'', [''App.jsx'', ''main.jsx'', ''routes.jsx'']) \<in> set structure"
    by (simp add: structure_def)
qed

text \<open>
  C6. A run is not transactional. When it raises \<open>e\<close>, the table splits into the entries
  \<open>pre\<close> that were processed without exception, the entry \<open>(folder, files)\<close> in which \<open>e\<close>
  was raised, and the entries \<open>rest\<close> that follow. The exception came from \<open>os.makedirs\<close>
  for the folder, or from \<open>open\<close> for one of its files after the files before it were
  written; the run ends right there, with the file system as that call left it. What
  follows the failing entry has no influence: with any other entries in place of \<open>rest\<close>
  the run ends in the same file system with the same exception. Nothing is rolled back:
  whatever was a directory or a file after the entries \<open>pre\<close> still is one at the end.
\<close>

theorem run_not_transactional:
  assumes "run base spec s = (s', Some e)"
  shows "\<exists>pre folder files rest s1.
      spec = pre @ (folder, files) # rest
    \<and> run base pre s = (s1, None)
    \<and> (makedirs (path_join base folder) True s1 = (s', Some e)
       \<or> (\<exists>s2 fpre f frest.
             makedirs (path_join base folder) True s1 = (s2, None)
           \<and> files = fpre @ f # frest
           \<and> create_files (path_join base folder) fpre s2 = (s', None)
           \<and> open_w (path_join (path_join base folder) f) s' = Inl e))
    \<and> (\<forall>rest'. run base (pre @ (folder, files) # rest') s = (s', Some e))
    \<and> (\<forall>p. isdir p s1 \<longrightarrow> isdir p s')
    \<and> (\<forall>p c. stat p s1 = Inr (File c) \<longrightarrow>
           stat p s' = Inr (File c) \<or> stat p s' = Inr (File []))"
proof -
  from run_raised [OF assms] obtain pre folder files rest s1 where
    spec: "spec = pre @ (folder, files) # rest" and pre: "run base pre s = (s1, None)"
    and raised: "makedirs (path_join base folder) True s1 = (s', Some e)
        \<or> (\<exists>s2. makedirs (path_join base folder) True s1 = (s2, None)
              \<and> create_files (path_join base folder) files s2 = (s', Some e))"
    by blast
  let ?full = "path_join base folder"
  have entry: "run base ((folder, files) # rest') s1 = (s', Some e)" for rest'
    using raised by auto
  have stops: "run base (pre @ (folder, files) # rest') s = (s', Some e)" for rest'
    by (simp only: run_append pre entry prod.case option.case)
  have ev: "evolves s1 s'"
    using entry [of "[]"] by (rule run_evolves)
  have kept_dirs: "isdir p s'" if "isdir p s1" for p
    using ev that by (rule isdir_evolves)
  have kept_files: "stat p s' = Inr (File c) \<or> stat p s' = Inr (File [])"
    if "stat p s1 = Inr (File c)" for p c
    using ev that by (rule stat_evolves_File)
  have place: "makedirs ?full True s1 = (s', Some e)
       \<or> (\<exists>s2 fpre f frest.
             makedirs ?full True s1 = (s2, None)
           \<and> files = fpre @ f # frest
           \<and> create_files ?full fpre s2 = (s', None)
           \<and> open_w (path_join ?full f) s' = Inl e)"
    using raised
  proof
    assume "makedirs ?full True s1 = (s', Some e)"
    then show ?thesis by simp
  next
    assume "\<exists>s2. makedirs ?full True s1 = (s2, None)
        \<and> create_files ?full files s2 = (s', Some e)"
    then obtain s2 where s2: "makedirs ?full True s1 = (s2, None)"
      "create_files ?full files s2 = (s', Some e)"
      by blast
    from create_files_raised [OF s2(2)] s2(1) show ?thesis by blast
  qed
  from spec pre place stops kept_dirs kept_files show ?thesis by blast
qed

theorem run_not_transactional_witness:
  "run base_dir clashing_table empty_project
     = (fst (run base_dir clashing_table empty_project), Some FileExistsError)
   \<and> stat ''src/hooks/useAuth.js'' (fst (run base_dir clashing_table empty_project))
     = Inr (File [])
   \<and> \<not> path_exists ''src/pages'' (fst (run base_dir clashing_table empty_project))
   \<and> (\<exists>pre folder files rest s1.
      clashing_table = pre @ (folder, files) # rest
    \<and> run base_dir pre empty_project = (s1, None)
    \<and> (makedirs (path_join base_dir folder) True s1
          = (fst (run base_dir clashing_table empty_project), Some FileExistsError)
       \<or> (\<exists>s2 fpre f frest.
             makedirs (path_join base_dir folder) True s1 = (s2, None)
           \<and> files = fpre @ f # frest
           \<and> create_files (path_join base_dir folder) fpre s2
               = (fst (run base_dir clashing_table empty_project), None)
           \<and> open_w (path_join (path_join base_dir folder) f)
                 (fst (run base_dir clashing_table empty_project)) = Inl FileExistsError))
    \<and> (\<forall>rest'. run base_dir (pre @ (folder, files) # rest') empty_project
          = (fst (run base_dir clashing_table empty_project), Some FileExistsError))
    \<and> (\<forall>p. isdir p s1 \<longrightarrow> isdir p (fst (run base_dir clashing_table empty_project)))
    \<and> (\<forall>p c. stat p s1 = Inr (File c) \<longrightarrow>
           stat p (fst (run base_dir clashing_table empty_project)) = Inr (File c)
         \<or> stat p (fst (run base_dir clashing_table empty_project)) = Inr (File [])))"
proof -
  let ?end = "fst (run base_dir clashing_table empty_project)"
  have "snd (run base_dir clashing_table empty_project) = Some FileExistsError"
    by (simp add: clashing_table_def empty_project_def base_dir_def eval_defs
        del: split_slash.simps(2) cong: prod.case_cong_weak)
  then have raised: "run base_dir clashing_table empty_project = (?end, Some FileExistsError)"
    by (simp add: prod_eq_iff)
  have emptied: "stat ''src/hooks/useAuth.js'' ?end = Inr (File [])"
    by (simp add: clashing_table_def empty_project_def base_dir_def eval_defs
        del: split_slash.simps(2) cong: prod.case_cong_weak)
  have pages: "\<not> path_exists ''src/pages'' ?end"
    by (simp add: clashing_table_def empty_project_def base_dir_def eval_defs
        del: split_slash.simps(2) cong: prod.case_cong_weak)
  show ?thesis
    by (intro conjI raised emptied pages run_not_transactional [OF raised])
qed





end
